theory Spec2Isabelle
  imports Complex_Main "HOL-Library.Stream"
begin

section \<open>Frost crystal growth: the model of FrostCanvas.tsx\<close>

text \<open>
  The component keeps its state in refs (the canvas, the live branches, the drawing flag,
  the last pointer position, the distance accumulator); the functions \<open>seedCrystal\<close> and
  \<open>advance\<close> are module-level. The model passes all of this state explicitly.

  Numbers: a TypeScript \<open>number\<close> is modelled as a \<open>real\<close>, so rounding of IEEE doubles
  and NaN are outside the model. The one place where the source stores \<open>Infinity\<close> is the
  field \<open>nextBranchIn\<close>, whose type therefore carries that value. \<open>depth\<close> only ever holds
  integers and is an \<open>int\<close>. \<open>Math.random()\<close> is a stream of draws, consumed from the
  front; the draws of a real run lie in [0, 1).
\<close>

subsection \<open>Numbers that may be Infinity\<close>

datatype number = Fin real | Infinity

text \<open>\<open>n - s\<close> for a finite \<open>s\<close>, \<open>n > 0\<close> and \<open>n <= 0\<close> as JavaScript evaluates them.\<close>

fun minus_number :: "number \<Rightarrow> real \<Rightarrow> number" where
  "minus_number (Fin a) s = Fin (a - s)"
| "minus_number Infinity s = Infinity"

fun gt_zero :: "number \<Rightarrow> bool" where
  "gt_zero (Fin a) = (0 < a)"
| "gt_zero Infinity = True"

fun le_zero :: "number \<Rightarrow> bool" where
  "le_zero (Fin a) = (a \<le> 0)"
| "le_zero Infinity = False"

subsection \<open>Branch\<close>

text \<open>The fields \<open>x\<close> and \<open>y\<close> of the interface are \<open>tipx\<close> and \<open>tipy\<close> here.\<close>

record branch =
  tipx :: real
  tipy :: real
  angle :: real
  curlRate :: real
  remaining :: real
  nextBranchIn :: number
  alpha :: real
  lineWidth :: real
  depth :: int

definition GROW_SPEED :: real where "GROW_SPEED = 7"
definition MAX_DEPTH :: int where "MAX_DEPTH = 4"

subsection \<open>The 2D drawing context\<close>

text \<open>
  A colour is a CSS colour string. The two shapes the source uses are kept apart: a literal
  such as \<open>#000b18\<close>, and \<open>rgba(r, g, b, a)\<close> with a computed alpha.
\<close>

datatype colour = Css string | Rgba nat nat nat real

definition BG :: colour where "BG = Css ''#000b18''"

text \<open>
  \<open>a.toFixed(2)\<close>: the number that the two-decimal string denotes (rounding half away
  from zero).
\<close>

definition toFixed2 :: "real \<Rightarrow> real" where
  "toFixed2 a =
     (if 0 \<le> a then real_of_int \<lfloor>a * 100 + 1 / 2\<rfloor> / 100
      else - (real_of_int \<lfloor>- a * 100 + 1 / 2\<rfloor> / 100))"

text \<open>The part of the context that \<open>save\<close> and \<open>restore\<close> keep.\<close>

record drawstate =
  fillStyle :: colour
  strokeStyle :: colour
  ctxLineWidth :: real
  lineCap :: string
  shadowColor :: colour
  shadowBlur :: real

text \<open>
  What has been painted: a stroke of a path (a list of subpaths, each a list of points)
  with the drawing state it was stroked in, or a filled rectangle.
\<close>

datatype paint =
    Stroke "(real \<times> real) list list" drawstate
  | FillRect real real real real drawstate

text \<open>
  The surface is the colour every pixel was last filled with (\<open>None\<close>: never filled) and
  what has been painted over it since, in paint order.
\<close>

record context2d =
  cwidth :: real
  cheight :: real
  dstate :: drawstate
  saved :: "drawstate list"
  path :: "(real \<times> real) list list"
  base :: "colour option"
  painted :: "paint list"

definition save :: "context2d \<Rightarrow> context2d" where
  "save c = c\<lparr>saved := dstate c # saved c\<rparr>"

definition restore :: "context2d \<Rightarrow> context2d" where
  "restore c = (case saved c of [] \<Rightarrow> c | d # ds \<Rightarrow> c\<lparr>dstate := d, saved := ds\<rparr>)"

definition beginPath :: "context2d \<Rightarrow> context2d" where
  "beginPath c = c\<lparr>path := []\<rparr>"

definition moveTo :: "real \<Rightarrow> real \<Rightarrow> context2d \<Rightarrow> context2d" where
  "moveTo px py c = c\<lparr>path := path c @ [[(px, py)]]\<rparr>"

text \<open>With no subpath yet, \<open>lineTo\<close> only starts one at the point.\<close>

definition lineTo :: "real \<Rightarrow> real \<Rightarrow> context2d \<Rightarrow> context2d" where
  "lineTo px py c =
     (if path c = [] then c\<lparr>path := [[(px, py)]]\<rparr>
      else c\<lparr>path := butlast (path c) @ [last (path c) @ [(px, py)]]\<rparr>)"

definition stroke :: "context2d \<Rightarrow> context2d" where
  "stroke c = c\<lparr>painted := painted c @ [Stroke (path c) (dstate c)]\<rparr>"

fun opaque :: "colour \<Rightarrow> bool" where
  "opaque (Css s) = True"
| "opaque (Rgba r g b a) = (1 \<le> a)"

text \<open>
  A rectangle that covers the whole surface in an opaque colour replaces everything
  painted before; any other rectangle is painted over what is there.
\<close>

definition fillRect :: "real \<Rightarrow> real \<Rightarrow> real \<Rightarrow> real \<Rightarrow> context2d \<Rightarrow> context2d" where
  "fillRect px py w h c =
     (if px \<le> 0 \<and> py \<le> 0 \<and> cwidth c \<le> px + w \<and> cheight c \<le> py + h
         \<and> opaque (fillStyle (dstate c))
      then c\<lparr>base := Some (fillStyle (dstate c)), painted := []\<rparr>
      else c\<lparr>painted := painted c @ [FillRect px py w h (dstate c)]\<rparr>)"

subsection \<open>advance\<close>

text \<open>
  One child of a fork, on the given side. The draws are taken in the order in which the
  source evaluates them: spread, childLen, then curlRate and nextBranchIn inside the object
  literal. The parent \<open>b\<close> is the branch after its own update.
\<close>

definition spawn_child :: "branch \<Rightarrow> real \<Rightarrow> real stream \<Rightarrow> branch \<times> real stream" where
  "spawn_child b side r =
     (let spread = pi / 3 + (shd r - 0.5) * 0.55;
          r1 = stl r;
          childLen = remaining b * (0.48 + shd r1 * 0.22);
          r2 = stl r1;
          cr = (shd r2 - 0.5) * 0.042;
          r3 = stl r2;
          nb = childLen * (0.28 + shd r3 * 0.32);
          r4 = stl r3
      in (\<lparr>tipx = tipx b, tipy = tipy b,
           angle = angle b + side * spread,
           curlRate = cr,
           remaining = childLen,
           nextBranchIn = Fin nb,
           alpha = alpha b * 0.72,
           lineWidth = lineWidth b * 0.62,
           depth = depth b - 1\<rparr>, r4))"

text \<open>\<open>for (const side of sides)\<close>, pushing each child.\<close>

fun spawn_sides :: "branch \<Rightarrow> real list \<Rightarrow> branch list \<Rightarrow> real stream
    \<Rightarrow> branch list \<times> real stream" where
  "spawn_sides b [] children r = (children, r)"
| "spawn_sides b (side # sides) children r =
     (let (c, r') = spawn_child b side r in spawn_sides b sides (children @ [c]) r')"

text \<open>
  \<open>advance(b, step, ctx)\<close> returns the branch as the call leaves it, the children, the
  context and the rest of the random draws.
\<close>

definition advance :: "branch \<Rightarrow> real \<Rightarrow> context2d \<Rightarrow> real stream
    \<Rightarrow> branch \<times> branch list \<times> context2d \<times> real stream" where
  "advance b step ctx r =
     (let s = min step (remaining b) in
      if s \<le> 0 then (b, [], ctx, r)
      else
        let newAngle = angle b + curlRate b * s;
            midAngle = (angle b + newAngle) / 2;
            nx = tipx b + cos midAngle * s;
            ny = tipy b + sin midAngle * s;
            ctx1 = beginPath ctx;
            ctx2 = moveTo (tipx b) (tipy b) ctx1;
            ctx3 = lineTo nx ny ctx2;
            ctx4 = ctx3\<lparr>dstate := (dstate ctx3)\<lparr>strokeStyle := Rgba 210 235 255 (toFixed2 (alpha b))\<rparr>\<rparr>;
            ctx5 = ctx4\<lparr>dstate := (dstate ctx4)\<lparr>ctxLineWidth := lineWidth b\<rparr>\<rparr>;
            ctx6 = stroke ctx5;
            prevNext = nextBranchIn b;
            b1 = b\<lparr>remaining := remaining b - s,
                   nextBranchIn := minus_number (nextBranchIn b) s,
                   tipx := nx, tipy := ny, angle := newAngle\<rparr>
        in
          if gt_zero prevNext \<and> le_zero (nextBranchIn b1) \<and> 1 < depth b1 \<and> 6 < remaining b1
          then
            let bilateral = (0.25 < shd r);
                r1 = stl r;
                (sides, r2) =
                  (if bilateral then ([- 1, 1], r1)
                   else ([if 0.5 < shd r1 then 1 else - 1], stl r1));
                (children, r3) = spawn_sides b1 sides [] r2;
                (nb, r4) =
                  (if 14 < remaining b1
                   then (Fin (remaining b1 * (0.35 + shd r3 * 0.35)), stl r3)
                   else (Infinity, r3))
            in (b1\<lparr>nextBranchIn := nb\<rparr>, children, ctx6, r4)
          else (b1, [], ctx6, r))"

subsection \<open>seedCrystal\<close>

text \<open>
  The loop \<open>for (let i = 0; i < numArms; i++)\<close>. Per arm the draws are: the angle jitter,
  the curl sign, the length, and inside the object literal the curl magnitude and the fork
  countdown.
\<close>

function seed_loop :: "int \<Rightarrow> int \<Rightarrow> real \<Rightarrow> real \<Rightarrow> branch list \<Rightarrow> real stream
    \<Rightarrow> branch list \<times> real stream" where
  "seed_loop i numArms px py bs r =
     (if i < numArms then
        let ang = (real_of_int i / real_of_int numArms) * pi * 2 + (shd r - 0.5) * 0.5;
            r1 = stl r;
            curlSign = (if 0.5 < shd r1 then 1 else - 1 :: real);
            r2 = stl r1;
            len = 55 + shd r2 * 70;
            r3 = stl r2;
            cr = curlSign * (0.018 + shd r3 * 0.022);
            r4 = stl r3;
            nb = len * (0.22 + shd r4 * 0.2);
            r5 = stl r4
        in seed_loop (i + 1) numArms px py
             (bs @ [\<lparr>tipx = px, tipy = py, angle = ang, curlRate = cr, remaining = len,
                      nextBranchIn = Fin nb, alpha = 0.88, lineWidth = 1.5,
                      depth = MAX_DEPTH\<rparr>]) r5
      else (bs, r))"
  by pat_completeness auto
termination
  by (relation "measure (\<lambda>(i, numArms, px, py, bs, r). nat (numArms - i))") auto

declare seed_loop.simps [simp del]

definition seedCrystal :: "real \<Rightarrow> real \<Rightarrow> real stream \<Rightarrow> branch list \<times> real stream" where
  "seedCrystal px py r =
     (let numArms = 3 + \<lfloor>shd r * 4\<rfloor> in seed_loop 0 numArms px py [] (stl r))"

subsection \<open>The component\<close>

text \<open>
  \<open>canvasRef\<close> is the canvas with its 2D context, absent until the element is mounted.
  \<open>planted\<close> is not in the source: it lists the points at which \<open>plant\<close> has been
  called, so that seed-plant events can be counted.
\<close>

record frost =
  canvasRef :: "context2d option"
  branches :: "branch list"
  drawing :: bool
  lastPos :: "(real \<times> real) option"
  distAcc :: real
  random :: "real stream"
  planted :: "(real \<times> real) list"

text \<open>The body of the loop \<open>for (const b of branches.current)\<close> of \<open>tick\<close>.\<close>

fun tick_loop :: "branch list \<Rightarrow> branch list \<Rightarrow> branch list \<Rightarrow> context2d \<Rightarrow> real stream
    \<Rightarrow> branch list \<times> branch list \<times> context2d \<times> real stream" where
  "tick_loop [] keep spawned ctx r = (keep, spawned, ctx, r)"
| "tick_loop (b # bs) keep spawned ctx r =
     (let (b', children, ctx', r') = advance b GROW_SPEED ctx r
      in tick_loop bs (if 0 < remaining b' then keep @ [b'] else keep)
           (spawned @ children) ctx' r')"

text \<open>
  One frame. The animation effect returns before it schedules anything when there is no
  canvas, so without a canvas no frame ever changes the state.
\<close>

definition tick :: "frost \<Rightarrow> frost" where
  "tick st =
     (case canvasRef st of
        None \<Rightarrow> st
      | Some ctx \<Rightarrow>
          if 0 < length (branches st) then
            let ctx1 = ctx\<lparr>dstate := (dstate ctx)\<lparr>lineCap := ''round''\<rparr>\<rparr>;
                ctx2 = ctx1\<lparr>dstate := (dstate ctx1)\<lparr>shadowColor := Css ''rgba(130, 195, 255, 0.45)''\<rparr>\<rparr>;
                ctx3 = ctx2\<lparr>dstate := (dstate ctx2)\<lparr>shadowBlur := 3.5\<rparr>\<rparr>;
                (keep, spawned, ctx4, r) = tick_loop (branches st) [] [] ctx3 (random st)
            in st\<lparr>branches := keep @ spawned, canvasRef := Some ctx4, random := r\<rparr>
          else st)"

definition plant :: "real \<Rightarrow> real \<Rightarrow> frost \<Rightarrow> frost" where
  "plant px py st =
     (let (seeds, r) = seedCrystal px py (random st)
      in st\<lparr>branches := branches st @ seeds, random := r, planted := planted st @ [(px, py)]\<rparr>)"

definition hypot :: "real \<Rightarrow> real \<Rightarrow> real" where
  "hypot dx dy = sqrt (dx * dx + dy * dy)"



definition handleUp :: "frost \<Rightarrow> frost" where
  "handleUp st = st\<lparr>drawing := False, lastPos := None\<rparr>"

definition clear :: "frost \<Rightarrow> frost" where
  "clear st =
     (case canvasRef st of
        None \<Rightarrow> st
      | Some ctx \<Rightarrow>
          let ctx1 = save ctx;
              ctx2 = ctx1\<lparr>dstate := (dstate ctx1)\<lparr>shadowBlur := 0\<rparr>\<rparr>;
              ctx3 = ctx2\<lparr>dstate := (dstate ctx2)\<lparr>fillStyle := BG\<rparr>\<rparr>;
              ctx4 = fillRect 0 0 (cwidth ctx3) (cheight ctx3) ctx3;
              ctx5 = restore ctx4
          in st\<lparr>branches := [], canvasRef := Some ctx5\<rparr>)"

subsection \<open>The parts of advance, named\<close>

text \<open>
  The steps of \<open>advance\<close> as separate functions, for the proofs: the in-place update of
  the branch by the distance \<open>s\<close>, the segment and the context after the stroke, the fork
  test, and the fork itself. \<open>advance_unfold\<close> shows that \<open>advance\<close> is their composition.
\<close>

definition grown :: "branch \<Rightarrow> real \<Rightarrow> branch" where
  "grown b s =
     b\<lparr>remaining := remaining b - s,
       nextBranchIn := minus_number (nextBranchIn b) s,
       tipx := tipx b + cos ((angle b + (angle b + curlRate b * s)) / 2) * s,
       tipy := tipy b + sin ((angle b + (angle b + curlRate b * s)) / 2) * s,
       angle := angle b + curlRate b * s\<rparr>"

definition segment :: "branch \<Rightarrow> real \<Rightarrow> (real \<times> real) list list" where
  "segment b s = [[(tipx b, tipy b), (tipx (grown b s), tipy (grown b s))]]"

definition drawn :: "branch \<Rightarrow> real \<Rightarrow> context2d \<Rightarrow> context2d" where
  "drawn b s ctx =
     (let d = (dstate ctx)\<lparr>strokeStyle := Rgba 210 235 255 (toFixed2 (alpha b)),
                            ctxLineWidth := lineWidth b\<rparr>
      in ctx\<lparr>dstate := d, path := segment b s, painted := painted ctx @ [Stroke (segment b s) d]\<rparr>)"

definition forks :: "branch \<Rightarrow> real \<Rightarrow> bool" where
  "forks b s \<longleftrightarrow>
     gt_zero (nextBranchIn b) \<and> le_zero (minus_number (nextBranchIn b) s) \<and>
     1 < depth b \<and> 6 < remaining b - s"

definition fork :: "branch \<Rightarrow> real stream \<Rightarrow> branch \<times> branch list \<times> real stream" where
  "fork b1 r =
     (let bilateral = (0.25 < shd r);
          r1 = stl r;
          (sides, r2) =
            (if bilateral then ([- 1, 1], r1)
             else ([if 0.5 < shd r1 then 1 else - 1], stl r1));
          (children, r3) = spawn_sides b1 sides [] r2;
          (nb, r4) =
            (if 14 < remaining b1
             then (Fin (remaining b1 * (0.35 + shd r3 * 0.35)), stl r3)
             else (Infinity, r3))
      in (b1\<lparr>nextBranchIn := nb\<rparr>, children, r4))"

text \<open>A run of draws as \<open>Math.random\<close> returns them: every draw lies in [0, 1).\<close>

definition unit_draws :: "real stream \<Rightarrow> bool" where
  "unit_draws r \<longleftrightarrow> (\<forall>d \<in> sset r. 0 \<le> d \<and> d < 1)"

text \<open>What every child of a fork takes from its parent \<open>p\<close>, the parent after its step.\<close>

definition child_of :: "branch \<Rightarrow> branch \<Rightarrow> bool" where
  "child_of p c \<longleftrightarrow>
     tipx c = tipx p \<and> tipy c = tipy p \<and> depth c = depth p - 1 \<and>
     alpha c = alpha p * 0.72 \<and> lineWidth c = lineWidth p * 0.62"

subsection \<open>The frame and the pointer path, named\<close>

text \<open>The drawing state that \<open>tick\<close> sets once per frame.\<close>

definition frost_style :: "context2d \<Rightarrow> context2d" where
  "frost_style ctx =
     ctx\<lparr>dstate := (dstate ctx)\<lparr>lineCap := ''round'',
                               shadowColor := Css ''rgba(130, 195, 255, 0.45)'',
                               shadowBlur := 3.5\<rparr>\<rparr>"

text \<open>
  The frame as the specification words it: every branch of the collection is advanced once
  by \<open>GROW_SPEED\<close>, in order, each call starting from the context and the draws that the
  call before it left. The result lists, per branch, the branch after its step and its
  children. \<open>tick_loop_each\<close> compares the loop of \<open>tick\<close> with it.
\<close>

fun advance_each :: "branch list \<Rightarrow> context2d \<Rightarrow> real stream \<Rightarrow> (branch \<times> branch list) list" where
  "advance_each [] ctx r = []"
| "advance_each (b # bs) ctx r =
     (let (b', children, ctx', r') = advance b GROW_SPEED ctx r
      in (b', children) # advance_each bs ctx' r')"

text \<open>The children spawned by the frame that \<open>tick\<close> runs on a state.\<close>

definition spawned_in :: "frost \<Rightarrow> branch list" where
  "spawned_in st =
     (case canvasRef st of
        None \<Rightarrow> []
      | Some ctx \<Rightarrow> fst (snd (tick_loop (branches st) [] [] (frost_style ctx) (random st))))"

text \<open>All branches created by the first \<open>n\<close> frames from a state on.\<close>

fun created :: "nat \<Rightarrow> frost \<Rightarrow> branch list" where
  "created 0 st = []"
| "created (Suc n) st = spawned_in st @ created n (tick st)"

text \<open>The number of segments on the canvas.\<close>

fun is_stroke :: "paint \<Rightarrow> bool" where
  "is_stroke (Stroke p d) = True"
| "is_stroke (FillRect px py w h d) = False"

definition rendered :: "frost \<Rightarrow> nat" where
  "rendered st =
     (case canvasRef st of None \<Rightarrow> 0 | Some ctx \<Rightarrow> length (filter is_stroke (painted ctx)))"

text \<open>
  The number of frames in which a branch still draws a segment:
  \<open>ceil (remaining / GROW_SPEED)\<close>, and none when nothing remains.
\<close>

definition segments_left :: "branch \<Rightarrow> nat" where
  "segments_left b = nat \<lceil>remaining b / GROW_SPEED\<rceil>"


text \<open>The distance that a path covers from a starting point.\<close>

fun path_length :: "real \<times> real \<Rightarrow> (real \<times> real) list \<Rightarrow> real" where
  "path_length p [] = 0"
| "path_length (lx, ly) ((px, py) # ps) = hypot (px - lx) (py - ly) + path_length (px, py) ps"


subsection \<open>Example values\<close>

text \<open>
  A canvas of 800 by 600 as the setup effect leaves it (filled with the background colour,
  nothing painted over it), a root arm about to fork, a branch with no depth budget left,
  and the random source that always draws one half.
\<close>

definition ex_ctx :: context2d where
  "ex_ctx = \<lparr>cwidth = 800, cheight = 600,
     dstate = \<lparr>fillStyle = BG, strokeStyle = Css ''#000000'', ctxLineWidth = 1,
       lineCap = ''butt'', shadowColor = Css ''rgba(0, 0, 0, 0)'', shadowBlur = 0\<rparr>,
     saved = [], path = [], base = Some BG, painted = []\<rparr>"

definition ex_arm :: branch where
  "ex_arm = \<lparr>tipx = 100, tipy = 100, angle = 0, curlRate = 0, remaining = 90,
     nextBranchIn = Fin 5, alpha = 0.88, lineWidth = 1.5, depth = 4\<rparr>"

definition ex_twig :: branch where
  "ex_twig = \<lparr>tipx = 100, tipy = 100, angle = 0, curlRate = 0, remaining = 90,
     nextBranchIn = Fin 5, alpha = 0.88, lineWidth = 1.5, depth = 1\<rparr>"

definition halves :: "real stream" where
  "halves = sconst (1 / 2)"

text \<open>
  The component with a mounted canvas on which one segment has been painted, two live
  branches (the second with 5 pixels left), and no drawing in progress; and the same with
  nothing live and nothing painted.
\<close>

definition ex_frost :: frost where
  "ex_frost = \<lparr>canvasRef = Some (ex_ctx\<lparr>painted := [Stroke [[(0, 0), (7, 0)]] (dstate ex_ctx)]\<rparr>),
     branches = [ex_arm, ex_arm\<lparr>remaining := 5\<rparr>], drawing = False, lastPos = None,
     distAcc = 0,
     random = halves, planted = []\<rparr>"

definition ex_idle :: frost where
  "ex_idle = \<lparr>canvasRef = Some ex_ctx, branches = [], drawing = False, lastPos = None,
     distAcc = 0, random = halves, planted = []\<rparr>"

section \<open>Properties\<close>

subsection \<open>advance\<close>

lemma advance_unfold:
  "advance b step ctx r =
     (let s = min step (remaining b) in
      if s \<le> 0 then (b, [], ctx, r)
      else if forks b s
        then (fst (fork (grown b s) r), fst (snd (fork (grown b s) r)), drawn b s ctx,
              snd (snd (fork (grown b s) r)))
        else (grown b s, [], drawn b s ctx, r))"
proof -
  define s where "s = min step (remaining b)"
  have "advance b step ctx r =
     (if s \<le> 0 then (b, [], ctx, r)
      else if forks b s
        then (fst (fork (grown b s) r), fst (snd (fork (grown b s) r)), drawn b s ctx,
              snd (snd (fork (grown b s) r)))
        else (grown b s, [], drawn b s ctx, r))"
    unfolding advance_def Let_def s_def [symmetric] fork_def forks_def
    by (simp add: case_prod_beta grown_def drawn_def segment_def stroke_def lineTo_def
        moveTo_def beginPath_def Let_def del: min_less_iff_conj min.bounded_iff)
  then show ?thesis by (simp add: s_def Let_def)
qed

lemma unit_draws_stl: "unit_draws r \<Longrightarrow> unit_draws (stl r)"
  by (auto simp: unit_draws_def dest: stl_sset)

lemma unit_draws_shd: "unit_draws r \<Longrightarrow> 0 \<le> shd r \<and> shd r < 1"
  by (simp add: unit_draws_def shd_sset)

lemma spawn_child_props:
  "child_of b (fst (spawn_child b side r))"
  by (simp add: spawn_child_def child_of_def Let_def)

lemma spawn_child_remaining:
  "remaining (fst (spawn_child b side r)) = remaining b * (0.48 + shd (stl r) * 0.22)"
  by (simp add: spawn_child_def Let_def)

lemma spawn_child_draws:
  "unit_draws r \<Longrightarrow> unit_draws (snd (spawn_child b side r))"
  by (simp add: spawn_child_def Let_def unit_draws_stl)

lemma spawn_child_len:
  assumes "unit_draws r" "0 < remaining b"
  shows "0 < remaining (fst (spawn_child b side r)) \<and>
         remaining (fst (spawn_child b side r)) \<le> remaining b"
proof -
  have d: "0 \<le> shd (stl r) \<and> shd (stl r) < 1"
    using assms(1) by (simp add: unit_draws_stl unit_draws_shd)
  let ?f = "0.48 + shd (stl r) * 0.22"
  have f: "0 < ?f \<and> ?f \<le> 1" using d by simp
  have "0 < remaining b * ?f" using assms(2) f by simp
  moreover have "remaining b * ?f \<le> remaining b * 1"
    using assms(2) f by (intro mult_left_mono) simp_all
  ultimately show ?thesis by (simp add: spawn_child_remaining)
qed

lemma spawn_sides_children:
  assumes "\<forall>c \<in> set cs. P c"
    and "Q r"
    and "\<And>side r0. Q r0 \<Longrightarrow> P (fst (spawn_child b side r0)) \<and> Q (snd (spawn_child b side r0))"
  shows "\<forall>c \<in> set (fst (spawn_sides b sides cs r)). P c"
  using assms(1,2)
proof (induction sides arbitrary: cs r)
  case Nil
  then show ?case by simp
next
  case (Cons side sides)
  let ?c = "fst (spawn_child b side r)" and ?r = "snd (spawn_child b side r)"
  have "\<forall>c \<in> set (cs @ [?c]). P c" "Q ?r"
    using Cons.prems assms(3) [of r side] by auto
  then have "\<forall>c \<in> set (fst (spawn_sides b sides (cs @ [?c]) ?r)). P c"
    by (rule Cons.IH)
  then show ?case by (simp add: case_prod_beta)
qed

lemma spawn_sides_length:
  "length (fst (spawn_sides b sides cs r)) = length cs + length sides"
  by (induction sides arbitrary: cs r) (auto simp: case_prod_beta Let_def)

lemma spawn_sides_draws:
  "unit_draws r \<Longrightarrow> unit_draws (snd (spawn_sides b sides cs r))"
  by (induction sides arbitrary: cs r) (auto simp: case_prod_beta Let_def spawn_child_draws)

lemma spawn_sides_len:
  assumes "unit_draws r" "0 < remaining b"
  shows "\<forall>c \<in> set (fst (spawn_sides b sides [] r)). 0 < remaining c \<and> remaining c \<le> remaining b"
  by (rule spawn_sides_children [where Q = unit_draws])
     (use assms in \<open>simp_all add: spawn_child_len spawn_child_draws\<close>)

lemma spawn_sides_child_of:
  "\<forall>c \<in> set (fst (spawn_sides b sides [] r)). child_of b c"
  by (rule spawn_sides_children [where Q = "\<lambda>r. True"]) (simp_all add: spawn_child_props)


lemma fork_branch:
  "tipx (fst (fork b1 r)) = tipx b1 \<and> tipy (fst (fork b1 r)) = tipy b1 \<and>
   angle (fst (fork b1 r)) = angle b1 \<and> curlRate (fst (fork b1 r)) = curlRate b1 \<and>
   remaining (fst (fork b1 r)) = remaining b1 \<and> alpha (fst (fork b1 r)) = alpha b1 \<and>
   lineWidth (fst (fork b1 r)) = lineWidth b1 \<and> depth (fst (fork b1 r)) = depth b1"
  by (simp add: fork_def Let_def case_prod_beta)

lemma fork_child_of: "\<forall>c \<in> set (fst (snd (fork b1 r))). child_of b1 c"
  using spawn_sides_child_of by (simp add: fork_def Let_def case_prod_beta del: spawn_sides.simps)

lemma fork_length:
  "length (fst (snd (fork b1 r))) = (if 0.25 < shd r then 2 else 1)"
  by (simp add: fork_def Let_def case_prod_beta spawn_sides_length del: spawn_sides.simps)

lemma fork_draws: "unit_draws r \<Longrightarrow> unit_draws (snd (snd (fork b1 r)))"
  by (simp add: fork_def Let_def case_prod_beta spawn_sides_draws unit_draws_stl
      del: spawn_sides.simps)

lemma fork_children_eq:
  "\<exists>sides r2. fst (snd (fork b1 r)) = fst (spawn_sides b1 sides [] r2) \<and>
     (unit_draws r \<longrightarrow> unit_draws r2)"
proof (cases "0.25 < shd r")
  case True
  then have "fst (snd (fork b1 r)) = fst (spawn_sides b1 [- 1, 1] [] (stl r))"
    by (simp add: fork_def Let_def case_prod_beta del: spawn_sides.simps)
  then show ?thesis using unit_draws_stl by blast
next
  case False
  then have "fst (snd (fork b1 r)) =
      fst (spawn_sides b1 [if 0.5 < shd (stl r) then 1 else - 1] [] (stl (stl r)))"
    by (simp add: fork_def Let_def case_prod_beta del: spawn_sides.simps)
  then show ?thesis using unit_draws_stl by blast
qed

lemma fork_len:
  assumes "unit_draws r" "0 < remaining b1"
  shows "\<forall>c \<in> set (fst (snd (fork b1 r))). 0 < remaining c \<and> remaining c \<le> remaining b1"
proof -
  obtain sides r2 where "fst (snd (fork b1 r)) = fst (spawn_sides b1 sides [] r2)" "unit_draws r2"
    using fork_children_eq [of b1 r] assms(1) by blast
  then show ?thesis using spawn_sides_len [of r2 b1 sides] assms(2) by simp
qed

lemma advance_noop:
  "min step (remaining b) \<le> 0 \<Longrightarrow> advance b step ctx r = (b, [], ctx, r)"
  by (simp add: advance_unfold)

lemma advance_branch:
  assumes "0 < min step (remaining b)"
  shows "tipx (fst (advance b step ctx r)) = tipx (grown b (min step (remaining b))) \<and>
     tipy (fst (advance b step ctx r)) = tipy (grown b (min step (remaining b))) \<and>
     angle (fst (advance b step ctx r)) = angle (grown b (min step (remaining b))) \<and>
     remaining (fst (advance b step ctx r)) = remaining (grown b (min step (remaining b)))"
  using assms fork_branch [of "grown b (min step (remaining b))" r]
  by (simp add: advance_unfold Let_def del: min_less_iff_conj)

lemma advance_fixed:
  "curlRate (fst (advance b step ctx r)) = curlRate b \<and>
   alpha (fst (advance b step ctx r)) = alpha b \<and>
   lineWidth (fst (advance b step ctx r)) = lineWidth b \<and>
   depth (fst (advance b step ctx r)) = depth b"
  using fork_branch [of "grown b (min step (remaining b))" r]
  by (simp add: advance_unfold Let_def grown_def del: min_less_iff_conj)

lemma advance_ctx:
  "0 < min step (remaining b) \<Longrightarrow>
   fst (snd (snd (advance b step ctx r))) = drawn b (min step (remaining b)) ctx"
  by (simp add: advance_unfold Let_def del: min_less_iff_conj)

lemma advance_children:
  "fst (snd (advance b step ctx r)) =
     (if 0 < min step (remaining b) \<and> forks b (min step (remaining b))
      then fst (snd (fork (grown b (min step (remaining b))) r)) else [])"
  by (simp add: advance_unfold Let_def del: min_less_iff_conj)

lemma advance_draws:
  "unit_draws r \<Longrightarrow> unit_draws (snd (snd (snd (advance b step ctx r))))"
  by (simp add: advance_unfold Let_def fork_draws del: min_less_iff_conj)

lemma halves_simps: "shd halves = 1 / 2" "stl halves = halves"
  by (simp_all add: halves_def)

lemma unit_draws_halves: "unit_draws halves"
  by (simp add: unit_draws_def halves_def)

subsection \<open>Claims about advance\<close>

text \<open>
  C1. For every branch, whose remaining length is never negative, and every step size,
  which is a distance and so not negative either, the remaining length after \<open>advance\<close>
  is not negative and has decreased by exactly \<open>min stepSize remaining\<close>; in particular,
  when \<open>min stepSize remaining \<le> 0\<close> the call changes nothing and returns no children.
\<close>

theorem advance_remaining:
  assumes "0 \<le> remaining b" and "0 \<le> step"
  shows "0 \<le> remaining (fst (advance b step ctx r)) \<and>
     remaining (fst (advance b step ctx r)) = remaining b - min step (remaining b) \<and>
     (min step (remaining b) \<le> 0 \<longrightarrow> advance b step ctx r = (b, [], ctx, r))"
proof (cases "min step (remaining b) \<le> 0")
  case True
  then have "advance b step ctx r = (b, [], ctx, r)" by (rule advance_noop)
  moreover have "min step (remaining b) = 0" using True assms by (simp add: min_def split: if_splits)
  ultimately show ?thesis using assms by simp
next
  case False
  then have s: "0 < min step (remaining b)" by (simp only: not_le)
  have "remaining (fst (advance b step ctx r)) = remaining b - min step (remaining b)"
    using advance_branch [OF s, of ctx r] by (simp add: grown_def)
  with False assms show ?thesis by auto
qed

theorem advance_remaining_witness:
  "0 \<le> remaining ex_arm \<and> (0 :: real) \<le> 7 \<and>
   remaining (fst (advance ex_arm 7 ex_ctx halves)) = 83 \<and>
   advance (ex_arm\<lparr>remaining := 0\<rparr>) 7 ex_ctx halves = (ex_arm\<lparr>remaining := 0\<rparr>, [], ex_ctx, halves)"
proof -
  have h: "0 \<le> remaining ex_arm" "0 \<le> remaining (ex_arm\<lparr>remaining := 0\<rparr>)"
    by (simp_all add: ex_arm_def)
  have p: "(0 :: real) \<le> 7" by simp
  show ?thesis
    using advance_remaining [OF h(1) p, of ex_ctx halves]
      advance_remaining [OF h(2) p, of ex_ctx halves]
    by (simp add: ex_arm_def)
qed

text \<open>
  C2. For every step size, a positive distance, and every branch with a positive remaining
  length, with \<open>s = min stepSize remaining\<close>: the new heading is \<open>heading + curlRate * s\<close>,
  the tip moves by \<open>s\<close> along the midpoint of the old and the new heading, and the call
  paints exactly one more stroke, the segment from the old tip to the tip that the branch
  now stores, in the branch's opacity (two decimals) and width.
\<close>

theorem advance_tip:
  assumes "0 < step" and "0 < remaining b"
  shows "let s = min step (remaining b);
             b' = fst (advance b step ctx r);
             ctx' = fst (snd (snd (advance b step ctx r)));
             midHeading = (angle b + angle b') / 2
         in angle b' = angle b + curlRate b * s \<and>
            tipx b' = tipx b + s * cos midHeading \<and>
            tipy b' = tipy b + s * sin midHeading \<and>
            painted ctx' = painted ctx @
              [Stroke [[(tipx b, tipy b), (tipx b', tipy b')]]
                ((dstate ctx)\<lparr>strokeStyle := Rgba 210 235 255 (toFixed2 (alpha b)),
                               ctxLineWidth := lineWidth b\<rparr>)]"
proof -
  have s: "0 < min step (remaining b)" using assms by simp
  show ?thesis
    using advance_branch [OF s, of ctx r] advance_ctx [OF s, of ctx r]
    by (simp add: Let_def grown_def drawn_def segment_def mult.commute del: min_less_iff_conj)
qed

theorem advance_tip_witness:
  "(0 :: real) < 7 \<and> 0 < remaining ex_arm \<and>
   angle (fst (advance ex_arm 7 ex_ctx halves)) = 0 \<and>
   tipx (fst (advance ex_arm 7 ex_ctx halves)) = 107 \<and>
   tipy (fst (advance ex_arm 7 ex_ctx halves)) = 100 \<and>
   painted (fst (snd (snd (advance ex_arm 7 ex_ctx halves)))) =
     [Stroke [[(100, 100), (107, 100)]]
       ((dstate ex_ctx)\<lparr>strokeStyle := Rgba 210 235 255 0.88, ctxLineWidth := 1.5\<rparr>)]"
proof -
  have h: "(0 :: real) < 7" "0 < remaining ex_arm"
    by (simp_all add: ex_arm_def)
  show ?thesis
    using advance_tip [OF h, of ex_ctx halves]
    by (simp add: Let_def ex_arm_def ex_ctx_def toFixed2_def)
qed

text \<open>
  C3. \<open>advance\<close> returns children if and only if the fork countdown was positive before
  the step, the countdown less the step is at most zero, the depth budget exceeds one and
  the remaining length after the step exceeds 6. In particular a branch with depth budget
  at most one never gets children.
\<close>

theorem advance_forks_iff:
  "(fst (snd (advance b step ctx r)) \<noteq> [] \<longleftrightarrow>
      gt_zero (nextBranchIn b) \<and>
      le_zero (minus_number (nextBranchIn b) (min step (remaining b))) \<and>
      1 < depth b \<and> 6 < remaining (fst (advance b step ctx r))) \<and>
   (depth b \<le> 1 \<longrightarrow> fst (snd (advance b step ctx r)) = [])"
proof (cases "0 < min step (remaining b)")
  case True
  have "fst (snd (fork (grown b (min step (remaining b))) r)) \<noteq> []"
    using fork_length [of "grown b (min step (remaining b))" r] by (auto split: if_splits)
  moreover have "remaining (fst (advance b step ctx r)) = remaining b - min step (remaining b)"
    using advance_branch [OF True, of ctx r] by (simp add: grown_def)
  ultimately show ?thesis using True
    by (auto simp: advance_children forks_def simp del: min_less_iff_conj)
next
  case False
  then have s: "min step (remaining b) \<le> 0" by (simp only: not_less)
  have "\<not> (gt_zero (nextBranchIn b) \<and> le_zero (minus_number (nextBranchIn b) (min step (remaining b))))"
    using s by (cases "nextBranchIn b") auto
  then show ?thesis using advance_noop [OF s, of ctx r] by auto
qed

theorem advance_forks_iff_witness:
  "depth ex_twig \<le> 1 \<and> fst (snd (advance ex_twig 7 ex_ctx halves)) = [] \<and>
   fst (snd (advance ex_arm 7 ex_ctx halves)) \<noteq> []"
proof -
  have "remaining (fst (advance ex_arm 7 ex_ctx halves)) = 83"
    using advance_branch [of 7 ex_arm ex_ctx halves] by (simp add: ex_arm_def grown_def)
  then show ?thesis
    using advance_forks_iff [of ex_twig 7 ex_ctx halves]
      advance_forks_iff [of ex_arm 7 ex_ctx halves]
    by (simp add: ex_twig_def ex_arm_def)
qed


text \<open>
  C4. Every child returned by \<open>advance\<close> has the parent's depth budget less one, the
  parent's opacity times 0.72 and stroke width times 0.62 (strictly smaller when the
  parent's are positive), and starts at the tip the parent has after the step.
\<close>

theorem advance_child_fields:
  "\<forall>c \<in> set (fst (snd (advance b step ctx r))).
     depth c = depth b - 1 \<and>
     alpha c = alpha b * 0.72 \<and>
     lineWidth c = lineWidth b * 0.62 \<and>
     (0 < alpha b \<longrightarrow> alpha c < alpha b) \<and>
     (0 < lineWidth b \<longrightarrow> lineWidth c < lineWidth b) \<and>
     tipx c = tipx (fst (advance b step ctx r)) \<and>
     tipy c = tipy (fst (advance b step ctx r))"
proof (cases "0 < min step (remaining b) \<and> forks b (min step (remaining b))")
  case True
  let ?p = "grown b (min step (remaining b))"
  have tip: "tipx (fst (advance b step ctx r)) = tipx ?p \<and> tipy (fst (advance b step ctx r)) = tipy ?p"
    using True advance_branch [of step b ctx r] by blast
  have p: "depth ?p = depth b \<and> alpha ?p = alpha b \<and> lineWidth ?p = lineWidth b"
    by (simp add: grown_def)
  have "\<forall>c \<in> set (fst (snd (advance b step ctx r))). child_of ?p c"
    using True fork_child_of [of ?p r] by (simp add: advance_children del: min_less_iff_conj)
  then show ?thesis using tip p by (auto simp: child_of_def)
next
  case False
  then have "fst (snd (advance b step ctx r)) = []"
    unfolding advance_children by (simp only: if_False)
  then show ?thesis by simp
qed

theorem advance_child_fields_witness:
  "length (fst (snd (advance ex_arm 7 ex_ctx halves))) = 2 \<and>
   list_all (\<lambda>c. depth c = 3 \<and> alpha c = 0.6336 \<and> lineWidth c = 0.93 \<and>
                 tipx c = 107 \<and> tipy c = 100)
     (fst (snd (advance ex_arm 7 ex_ctx halves)))"
proof -
  have s: "0 < min 7 (remaining ex_arm)" by (simp add: ex_arm_def)
  have f: "forks ex_arm (min 7 (remaining ex_arm))" by (simp add: forks_def ex_arm_def)
  have "length (fst (snd (advance ex_arm 7 ex_ctx halves))) = 2"
    using s f fork_length [of "grown ex_arm (min 7 (remaining ex_arm))" halves]
    by (simp add: advance_children halves_simps del: min_less_iff_conj)
  moreover have "tipx (fst (advance ex_arm 7 ex_ctx halves)) = 107 \<and>
      tipy (fst (advance ex_arm 7 ex_ctx halves)) = 100"
    using advance_branch [OF s, of ex_ctx halves] by (simp add: grown_def ex_arm_def)
  ultimately show ?thesis
    using advance_child_fields [of ex_arm 7 ex_ctx halves]
    by (simp add: ex_arm_def list_all_iff)
qed

subsection \<open>seedCrystal\<close>

lemma seed_loop_unfold:
  "seed_loop i numArms px py bs r =
     (if i < numArms then
        seed_loop (i + 1) numArms px py
          (bs @ [\<lparr>tipx = px, tipy = py,
             angle = (real_of_int i / real_of_int numArms) * pi * 2 + (shd r - 0.5) * 0.5,
             curlRate = (if 0.5 < shd (stl r) then 1 else - 1) * (0.018 + shd (stl (stl (stl r))) * 0.022),
             remaining = 55 + shd (stl (stl r)) * 70,
             nextBranchIn = Fin ((55 + shd (stl (stl r)) * 70) * (0.22 + shd (stl (stl (stl (stl r)))) * 0.2)),
             alpha = 0.88, lineWidth = 1.5, depth = MAX_DEPTH\<rparr>])
          (stl (stl (stl (stl (stl r)))))
      else (bs, r))"
  by (subst seed_loop.simps) (simp only: Let_def)


lemma seed_loop_length:
  "length (fst (seed_loop i numArms px py bs r)) = length bs + nat (numArms - i)"
proof (induction "nat (numArms - i)" arbitrary: i bs r)
  case 0
  then have "\<not> i < numArms" by simp
  then show ?case by (subst seed_loop_unfold) simp
next
  case (Suc k)
  then have lt: "i < numArms" and k: "k = nat (numArms - (i + 1))" by linarith+
  show ?case
    by (subst seed_loop_unfold) (use lt Suc.hyps(1) [OF k] Suc.hyps(2) in simp)
qed


lemma seed_loop_all:
  assumes step: "\<And>i r. Q r \<Longrightarrow>
      P \<lparr>tipx = px, tipy = py,
             angle = (real_of_int i / real_of_int numArms) * pi * 2 + (shd r - 0.5) * 0.5,
             curlRate = (if 0.5 < shd (stl r) then 1 else - 1) * (0.018 + shd (stl (stl (stl r))) * 0.022),
             remaining = 55 + shd (stl (stl r)) * 70,
             nextBranchIn = Fin ((55 + shd (stl (stl r)) * 70) * (0.22 + shd (stl (stl (stl (stl r)))) * 0.2)),
             alpha = 0.88, lineWidth = 1.5, depth = MAX_DEPTH\<rparr> \<and>
      Q (stl (stl (stl (stl (stl r)))))"
  shows "Q r \<Longrightarrow> \<forall>b \<in> set bs. P b \<Longrightarrow>
     (\<forall>b \<in> set (fst (seed_loop i numArms px py bs r)). P b) \<and>
     Q (snd (seed_loop i numArms px py bs r))"
proof (induction "nat (numArms - i)" arbitrary: i bs r)
  case 0
  then have "\<not> i < numArms" by simp
  with "0.prems" show ?case by (subst (1 2) seed_loop_unfold) simp
next
  case (Suc k)
  then have lt: "i < numArms" and k: "k = nat (numArms - (i + 1))" by linarith+
  let ?b = "\<lparr>tipx = px, tipy = py,
             angle = (real_of_int i / real_of_int numArms) * pi * 2 + (shd r - 0.5) * 0.5,
             curlRate = (if 0.5 < shd (stl r) then 1 else - 1) * (0.018 + shd (stl (stl (stl r))) * 0.022),
             remaining = 55 + shd (stl (stl r)) * 70,
             nextBranchIn = Fin ((55 + shd (stl (stl r)) * 70) * (0.22 + shd (stl (stl (stl (stl r)))) * 0.2)),
             alpha = 0.88, lineWidth = 1.5, depth = MAX_DEPTH\<rparr>"
  let ?r = "stl (stl (stl (stl (stl r))))"
  have "P ?b" "Q ?r" using step [OF Suc.prems(1), of i] by blast+
  moreover from \<open>P ?b\<close> Suc.prems(2) have "\<forall>b \<in> set (bs @ [?b]). P b" by simp
  ultimately have res: "(\<forall>b \<in> set (fst (seed_loop (i + 1) numArms px py (bs @ [?b]) ?r)). P b) \<and>
     Q (snd (seed_loop (i + 1) numArms px py (bs @ [?b]) ?r))"
    using Suc.hyps(1) [OF k] by blast
  have eq: "seed_loop i numArms px py bs r = seed_loop (i + 1) numArms px py (bs @ [?b]) ?r"
    by (subst seed_loop_unfold) (simp only: lt if_True)
  show ?case unfolding eq by (rule res)
qed


lemma seed_loop_origin:
  "\<forall>b \<in> set (fst (seed_loop i numArms px py [] r)).
      tipx b = px \<and> tipy b = py \<and> depth b = MAX_DEPTH"
  using seed_loop_all [where Q = "\<lambda>r. True" and bs = "[]"
      and P = "\<lambda>b. tipx b = px \<and> tipy b = py \<and> depth b = MAX_DEPTH"]
  by simp

text \<open>
  C6. When the draw that chooses the number of arms lies in [0, 1), as every draw of
  \<open>Math.random\<close> does, \<open>seedCrystal\<close> returns between 3 and 6 branches; each of them has
  its tip at the given point and the maximum depth budget.
\<close>

theorem seedCrystal_arms:
  assumes "0 \<le> shd r" and "shd r < 1"
  shows "3 \<le> length (fst (seedCrystal px py r)) \<and> length (fst (seedCrystal px py r)) \<le> 6 \<and>
     (\<forall>b \<in> set (fst (seedCrystal px py r)).
        tipx b = px \<and> tipy b = py \<and> depth b = MAX_DEPTH)"
proof -
  have "0 \<le> \<lfloor>shd r * 4\<rfloor>" using assms(1) by simp
  moreover have "\<lfloor>shd r * 4\<rfloor> < 4" using assms(2) by (simp add: floor_less_iff)
  ultimately have n: "3 \<le> nat (3 + \<lfloor>shd r * 4\<rfloor>) \<and> nat (3 + \<lfloor>shd r * 4\<rfloor>) \<le> 6" by linarith
  have len: "length (fst (seedCrystal px py r)) = nat (3 + \<lfloor>shd r * 4\<rfloor>)"
    by (simp only: seedCrystal_def Let_def seed_loop_length list.size diff_zero add_0)
  have org: "\<forall>b \<in> set (fst (seedCrystal px py r)).
        tipx b = px \<and> tipy b = py \<and> depth b = MAX_DEPTH"
    unfolding seedCrystal_def Let_def by (rule seed_loop_origin)
  show ?thesis using n len org by simp
qed

theorem seedCrystal_arms_witness:
  "0 \<le> shd halves \<and> shd halves < 1 \<and>
   3 \<le> length (fst (seedCrystal 100 100 halves)) \<and>
   length (fst (seedCrystal 100 100 halves)) \<le> 6 \<and>
   list_all (\<lambda>b. tipx b = 100 \<and> tipy b = 100 \<and> depth b = 4) (fst (seedCrystal 100 100 halves))"
proof -
  have h: "0 \<le> shd halves" "shd halves < 1" by (simp_all add: halves_simps)
  have "list_all (\<lambda>b. tipx b = 100 \<and> tipy b = 100 \<and> depth b = 4) (fst (seedCrystal 100 100 halves))"
    using seedCrystal_arms [OF h, of 100 100] unfolding list_all_iff MAX_DEPTH_def by blast
  then show ?thesis using h seedCrystal_arms [OF h, of 100 100] by blast
qed

subsection \<open>clear\<close>

text \<open>
  C10. \<open>clear\<close> is idempotent: a second \<open>clear\<close> leaves the state as the first one left
  it. With a mounted canvas that state has no live branch and a surface filled with the
  background colour with nothing painted over it.
\<close>

theorem clear_idempotent:
  "clear (clear st) = clear st \<and>
   (canvasRef st \<noteq> None \<longrightarrow>
      branches (clear st) = [] \<and>
      (\<exists>ctx. canvasRef (clear st) = Some ctx \<and> base ctx = Some BG \<and> painted ctx = []))"
proof (cases "canvasRef st")
  case None
  then show ?thesis by (simp add: clear_def)
next
  case (Some ctx)
  then show ?thesis
    by (simp add: clear_def Let_def save_def restore_def fillRect_def BG_def)
qed

theorem clear_idempotent_witness:
  "canvasRef ex_frost \<noteq> None \<and> clear ex_frost = ex_idle \<and> clear (clear ex_frost) = ex_idle"
proof -
  have "clear ex_frost = ex_idle"
    by (simp add: clear_def Let_def save_def restore_def fillRect_def BG_def ex_frost_def
        ex_idle_def ex_ctx_def)
  then show ?thesis using clear_idempotent [of ex_frost] by (simp add: ex_frost_def)
qed

subsection \<open>The pointer handlers\<close>

lemma hypot_nonneg: "0 \<le> hypot dx dy"
  by (simp add: hypot_def)

lemma path_length_nonneg: "0 \<le> path_length p ps"
  by (induction p ps rule: path_length.induct) (simp_all add: hypot_nonneg)

lemma plant_fields:
  "drawing (plant px py st) = drawing st \<and> lastPos (plant px py st) = lastPos st \<and>
   distAcc (plant px py st) = distAcc st \<and> canvasRef (plant px py st) = canvasRef st \<and>
   planted (plant px py st) = planted st @ [(px, py)] \<and>
   branches (plant px py st) = branches st @ fst (seedCrystal px py (random st)) \<and>
   random (plant px py st) = snd (seedCrystal px py (random st))"
  by (simp add: plant_def case_prod_beta)








subsection \<open>The frame\<close>

lemma tick_loop_each:
  "fst (tick_loop bs keep spawned ctx r) =
     keep @ filter (\<lambda>b. 0 < remaining b) (map fst (advance_each bs ctx r)) \<and>
   fst (snd (tick_loop bs keep spawned ctx r)) =
     spawned @ concat (map snd (advance_each bs ctx r))"
proof (induction bs arbitrary: keep spawned ctx r)
  case Nil
  show ?case by simp
next
  case (Cons b bs)
  obtain b' cs ctx' r' where a: "advance b GROW_SPEED ctx r = (b', cs, ctx', r')"
    by (cases "advance b GROW_SPEED ctx r") auto
  show ?case
    using Cons.IH [of "if 0 < remaining b' then keep @ [b'] else keep" "spawned @ cs" ctx' r']
    by (simp add: a)
qed

lemma advance_each_length: "length (advance_each bs ctx r) = length bs"
  by (induction bs arbitrary: ctx r) (simp_all add: case_prod_beta Let_def)

lemma advance_each_nth:
  "i < length bs \<Longrightarrow>
   \<exists>c r'. advance_each bs ctx r ! i =
     (fst (advance (bs ! i) GROW_SPEED c r'), fst (snd (advance (bs ! i) GROW_SPEED c r')))"
proof (induction bs arbitrary: i ctx r)
  case Nil
  then show ?case by simp
next
  case (Cons b bs)
  show ?case
  proof (cases i)
    case 0
    then show ?thesis by (auto simp: case_prod_beta Let_def)
  next
    case (Suc j)
    with Cons.prems have "j < length bs" by simp
    from Cons.IH [OF this] Suc show ?thesis by (simp add: case_prod_beta Let_def)
  qed
qed

lemma tick_running:
  assumes "canvasRef st = Some ctx" and "branches st \<noteq> []"
  shows "tick st =
     st\<lparr>branches := fst (tick_loop (branches st) [] [] (frost_style ctx) (random st)) @
                     fst (snd (tick_loop (branches st) [] [] (frost_style ctx) (random st))),
        canvasRef := Some (fst (snd (snd (tick_loop (branches st) [] [] (frost_style ctx) (random st))))),
        random := snd (snd (snd (tick_loop (branches st) [] [] (frost_style ctx) (random st))))\<rparr>"
proof -
  have "(ctx\<lparr>dstate := (dstate ctx)\<lparr>lineCap := ''round''\<rparr>\<rparr>)
       \<lparr>dstate := (dstate (ctx\<lparr>dstate := (dstate ctx)\<lparr>lineCap := ''round''\<rparr>\<rparr>))
          \<lparr>shadowColor := Css ''rgba(130, 195, 255, 0.45)''\<rparr>\<rparr> = 
        ctx\<lparr>dstate := (dstate ctx)\<lparr>lineCap := ''round'',
              shadowColor := Css ''rgba(130, 195, 255, 0.45)''\<rparr>\<rparr>" by simp
  then show ?thesis
  using assms by (simp add: tick_def Let_def case_prod_beta frost_style_def)
qed

lemma tick_idle: "branches st = [] \<Longrightarrow> tick st = st"
  by (simp add: tick_def split: option.splits)

lemma tick_unmounted: "canvasRef st = None \<Longrightarrow> tick st = st"
  by (simp add: tick_def)

text \<open>
  C5. A frame over a non-empty collection advances each branch of the collection once by
  \<open>GROW_SPEED\<close>, in order; the next collection is the advanced branches whose remaining
  length is positive, followed by the children of all of them. So a branch whose remaining
  length has reached 0 is not in the next collection, and since each later collection is
  computed from the one before it, it is never advanced again.
\<close>

theorem tick_collection:
  assumes "canvasRef st = Some ctx" and "branches st \<noteq> []"
  shows "let res = advance_each (branches st) (frost_style ctx) (random st) in
     length res = length (branches st) \<and>
     (\<forall>i < length res. \<exists>c r.
        res ! i = (fst (advance (branches st ! i) GROW_SPEED c r),
                   fst (snd (advance (branches st ! i) GROW_SPEED c r)))) \<and>
     branches (tick st) = filter (\<lambda>b. 0 < remaining b) (map fst res) @ concat (map snd res)"
proof -
  have "branches (tick st) =
      filter (\<lambda>b. 0 < remaining b) (map fst (advance_each (branches st) (frost_style ctx) (random st))) @
      concat (map snd (advance_each (branches st) (frost_style ctx) (random st)))"
    using tick_loop_each [of "branches st" "[]" "[]" "frost_style ctx" "random st"]
    by (simp add: tick_running [OF assms])
  then show ?thesis
    using advance_each_nth [of _ "branches st" "frost_style ctx" "random st"]
    by (simp add: Let_def advance_each_length)
qed


lemma ex_arm_step:
  "remaining (fst (advance ex_arm GROW_SPEED c r)) = 83"
  "length (fst (snd (advance ex_arm GROW_SPEED c halves))) = 2"
proof -
  have s: "0 < min GROW_SPEED (remaining ex_arm)" by (simp add: GROW_SPEED_def ex_arm_def)
  show "remaining (fst (advance ex_arm GROW_SPEED c r)) = 83"
    using advance_branch [OF s, of c r] by (simp add: grown_def GROW_SPEED_def ex_arm_def)
  have "forks ex_arm (min GROW_SPEED (remaining ex_arm))"
    by (simp add: forks_def GROW_SPEED_def ex_arm_def)
  with s show "length (fst (snd (advance ex_arm GROW_SPEED c halves))) = 2"
    by (simp add: advance_children fork_length halves_simps del: min_less_iff_conj)
qed

lemma ex_short_step:
  "remaining (fst (advance (ex_arm\<lparr>remaining := 5\<rparr>) GROW_SPEED c r)) = 0"
  "fst (snd (advance (ex_arm\<lparr>remaining := 5\<rparr>) GROW_SPEED c r)) = []"
proof -
  have s: "0 < min GROW_SPEED (remaining (ex_arm\<lparr>remaining := 5\<rparr>))"
    by (simp add: GROW_SPEED_def)
  show "remaining (fst (advance (ex_arm\<lparr>remaining := 5\<rparr>) GROW_SPEED c r)) = 0"
    using advance_branch [OF s, of c r] by (simp add: grown_def GROW_SPEED_def)
  show "fst (snd (advance (ex_arm\<lparr>remaining := 5\<rparr>) GROW_SPEED c r)) = []"
    by (simp add: advance_children forks_def GROW_SPEED_def)
qed

theorem tick_collection_witness:
  "canvasRef ex_frost \<noteq> None \<and> branches ex_frost \<noteq> [] \<and>
   length (branches ex_frost) = 2 \<and> length (branches (tick ex_frost)) = 3 \<and>
   remaining (hd (branches (tick ex_frost))) = 83"
proof -
  obtain ctx where c: "canvasRef ex_frost = Some ctx" by (simp add: ex_frost_def)
  have b: "branches ex_frost \<noteq> []" by (simp add: ex_frost_def)
  have bs: "branches ex_frost = [ex_arm, ex_arm\<lparr>remaining := 5\<rparr>]" "random ex_frost = halves"
    by (simp_all add: ex_frost_def)
  show ?thesis
    using tick_collection [OF c b] c
    by (simp add: Let_def bs case_prod_beta ex_arm_step ex_short_step)
qed

subsection \<open>Termination of a crystal's growth\<close>

lemma advance_bound:
  assumes "unit_draws r" and "remaining b \<le> M"
  shows "(0 < remaining (fst (advance b GROW_SPEED ctx r)) \<longrightarrow>
            remaining (fst (advance b GROW_SPEED ctx r)) \<le> M - GROW_SPEED) \<and>
     (\<forall>c \<in> set (fst (snd (advance b GROW_SPEED ctx r))).
            0 < remaining c \<and> remaining c \<le> M - GROW_SPEED)"
proof (cases "0 < min GROW_SPEED (remaining b)")
  case False
  then have s: "min GROW_SPEED (remaining b) \<le> 0" by (simp only: not_less)
  then have "remaining b \<le> 0" by (simp add: GROW_SPEED_def min_def split: if_splits)
  then show ?thesis using advance_noop [OF s, of ctx r] by simp
next
  case True
  let ?s = "min GROW_SPEED (remaining b)"
  have rem: "remaining (fst (advance b GROW_SPEED ctx r)) = remaining b - ?s"
    using advance_branch [OF True, of ctx r] by (simp add: grown_def)
  have kept: "0 < remaining b - ?s \<Longrightarrow> remaining b - ?s \<le> M - GROW_SPEED"
    using assms(2) by (simp add: min_def split: if_splits)
  have kids: "\<forall>c \<in> set (fst (snd (advance b GROW_SPEED ctx r))).
      0 < remaining c \<and> remaining c \<le> M - GROW_SPEED"
  proof (cases "forks b ?s")
    case False
    then have "fst (snd (advance b GROW_SPEED ctx r)) = []"
      unfolding advance_children by (simp only: simp_thms if_False)
    then show ?thesis by simp
  next
    case f: True
    then have pos: "0 < remaining (grown b ?s)" by (simp add: forks_def grown_def)
    then have "remaining (grown b ?s) \<le> M - GROW_SPEED" using kept by (simp add: grown_def)
    moreover have "fst (snd (advance b GROW_SPEED ctx r)) = fst (snd (fork (grown b ?s) r))"
      unfolding advance_children using True f by (simp only: simp_thms if_True)
    ultimately show ?thesis using fork_len [OF assms(1) pos] by fastforce
  qed
  show ?thesis using rem kept kids by simp
qed

lemma advance_each_bound:
  "unit_draws r \<Longrightarrow> \<forall>b \<in> set bs. remaining b \<le> M \<Longrightarrow>
   \<forall>p \<in> set (advance_each bs ctx r).
     (0 < remaining (fst p) \<longrightarrow> remaining (fst p) \<le> M - GROW_SPEED) \<and>
     (\<forall>c \<in> set (snd p). 0 < remaining c \<and> remaining c \<le> M - GROW_SPEED)"
proof (induction bs arbitrary: ctx r)
  case Nil
  show ?case by simp
next
  case (Cons b bs)
  let ?a = "advance b GROW_SPEED ctx r"
  have hd: "(0 < remaining (fst ?a) \<longrightarrow> remaining (fst ?a) \<le> M - GROW_SPEED) \<and>
     (\<forall>c \<in> set (fst (snd ?a)). 0 < remaining c \<and> remaining c \<le> M - GROW_SPEED)"
    using Cons.prems by (intro advance_bound) simp_all
  have "unit_draws (snd (snd (snd ?a)))" using Cons.prems(1) by (rule advance_draws)
  then have tl: "\<forall>p \<in> set (advance_each bs (fst (snd (snd ?a))) (snd (snd (snd ?a)))).
     (0 < remaining (fst p) \<longrightarrow> remaining (fst p) \<le> M - GROW_SPEED) \<and>
     (\<forall>c \<in> set (snd p). 0 < remaining c \<and> remaining c \<le> M - GROW_SPEED)"
    using Cons.prems(2) by (intro Cons.IH) simp_all
  show ?case using hd tl by (simp add: case_prod_beta)
qed

lemma tick_loop_draws:
  "unit_draws r \<Longrightarrow> unit_draws (snd (snd (snd (tick_loop bs keep spawned ctx r))))"
proof (induction bs arbitrary: keep spawned ctx r)
  case Nil
  then show ?case by simp
next
  case (Cons b bs)
  have "unit_draws (snd (snd (snd (advance b GROW_SPEED ctx r))))"
    using Cons.prems by (rule advance_draws)
  from Cons.IH [OF this] show ?case by (simp add: case_prod_beta)
qed

lemma tick_bound:
  assumes "canvasRef st \<noteq> None" and "unit_draws (random st)"
    and "\<forall>b \<in> set (branches st). remaining b \<le> M"
  shows "canvasRef (tick st) \<noteq> None \<and> unit_draws (random (tick st)) \<and>
     (\<forall>b \<in> set (branches (tick st)). 0 < remaining b \<and> remaining b \<le> M - GROW_SPEED)"
proof (cases "branches st = []")
  case True
  then show ?thesis using assms by (simp add: tick_idle)
next
  case False
  obtain ctx where c: "canvasRef st = Some ctx" using assms(1) by blast
  let ?res = "advance_each (branches st) (frost_style ctx) (random st)"
  have br: "branches (tick st) = filter (\<lambda>b. 0 < remaining b) (map fst ?res) @ concat (map snd ?res)"
    using tick_loop_each [of "branches st" "[]" "[]" "frost_style ctx" "random st"]
    by (simp add: tick_running [OF c False])
  have "\<forall>b \<in> set (branches (tick st)). 0 < remaining b \<and> remaining b \<le> M - GROW_SPEED"
    unfolding br using advance_each_bound [OF assms(2,3), of "frost_style ctx"] by fastforce
  moreover have "unit_draws (random (tick st))"
    using tick_loop_draws [OF assms(2)] by (simp add: tick_running [OF c False])
  moreover have "canvasRef (tick st) \<noteq> None" by (simp add: tick_running [OF c False])
  ultimately show ?thesis by simp
qed

lemma frames_bound:
  assumes "canvasRef st \<noteq> None" and "unit_draws (random st)"
    and "\<forall>b \<in> set (branches st). remaining b \<le> M"
  shows "canvasRef ((tick ^^ n) st) \<noteq> None \<and> unit_draws (random ((tick ^^ n) st)) \<and>
     (\<forall>b \<in> set (branches ((tick ^^ n) st)). remaining b \<le> M - GROW_SPEED * real n)"
proof (induction n)
  case 0
  show ?case using assms by simp
next
  case (Suc n)
  then have "canvasRef (tick ((tick ^^ n) st)) \<noteq> None \<and>
     unit_draws (random (tick ((tick ^^ n) st))) \<and>
     (\<forall>b \<in> set (branches (tick ((tick ^^ n) st))).
        0 < remaining b \<and> remaining b \<le> M - GROW_SPEED * real n - GROW_SPEED)"
    by (intro tick_bound) simp_all
  then show ?case by (simp add: algebra_simps)
qed

lemma frames_empty:
  assumes "canvasRef st \<noteq> None" and "unit_draws (random st)"
    and "\<forall>b \<in> set (branches st). remaining b \<le> M" and "M \<le> GROW_SPEED * real (Suc n)"
  shows "branches ((tick ^^ Suc n) st) = []"
proof -
  have "\<forall>b \<in> set (branches (tick ((tick ^^ n) st))).
        0 < remaining b \<and> remaining b \<le> M - GROW_SPEED * real n - GROW_SPEED"
    using frames_bound [OF assms(1-3), of n] by (intro tick_bound [THEN conjunct2, THEN conjunct2]) simp_all
  then have "\<forall>b \<in> set (branches (tick ((tick ^^ n) st))). False"
    using assms(4) by (fastforce simp: algebra_simps)
  then have "set (branches (tick ((tick ^^ n) st))) = {}" by auto
  then show ?thesis by simp
qed


lemma seed_loop_len:
  assumes "unit_draws r"
  shows "(\<forall>b \<in> set (fst (seed_loop i numArms px py [] r)). 55 \<le> remaining b \<and> remaining b \<le> 125) \<and>
     unit_draws (snd (seed_loop i numArms px py [] r))"
proof (rule seed_loop_all [where Q = unit_draws and P = "\<lambda>b. 55 \<le> remaining b \<and> remaining b \<le> 125"])
  fix i :: int and r :: "real stream"
  assume r: "unit_draws r"
  then have "0 \<le> shd (stl (stl r)) \<and> shd (stl (stl r)) < 1"
    by (simp add: unit_draws_stl unit_draws_shd)
  moreover have "unit_draws (stl (stl (stl (stl (stl r)))))" using r by (simp add: unit_draws_stl)
  ultimately show "(55 \<le> remaining \<lparr>tipx = px, tipy = py,
             angle = (real_of_int i / real_of_int numArms) * pi * 2 + (shd r - 0.5) * 0.5,
             curlRate = (if 0.5 < shd (stl r) then 1 else - 1) * (0.018 + shd (stl (stl (stl r))) * 0.022),
             remaining = 55 + shd (stl (stl r)) * 70,
             nextBranchIn = Fin ((55 + shd (stl (stl r)) * 70) * (0.22 + shd (stl (stl (stl (stl r)))) * 0.2)),
             alpha = 0.88, lineWidth = 1.5, depth = MAX_DEPTH\<rparr> \<and>
      remaining \<lparr>tipx = px, tipy = py,
             angle = (real_of_int i / real_of_int numArms) * pi * 2 + (shd r - 0.5) * 0.5,
             curlRate = (if 0.5 < shd (stl r) then 1 else - 1) * (0.018 + shd (stl (stl (stl r))) * 0.022),
             remaining = 55 + shd (stl (stl r)) * 70,
             nextBranchIn = Fin ((55 + shd (stl (stl r)) * 70) * (0.22 + shd (stl (stl (stl (stl r)))) * 0.2)),
             alpha = 0.88, lineWidth = 1.5, depth = MAX_DEPTH\<rparr> \<le> 125) \<and>
      unit_draws (stl (stl (stl (stl (stl r)))))" by simp
qed (use assms in simp_all)

lemma seedCrystal_len:
  assumes "unit_draws r"
  shows "(\<forall>b \<in> set (fst (seedCrystal px py r)). 55 \<le> remaining b \<and> remaining b \<le> 125) \<and>
     unit_draws (snd (seedCrystal px py r))"
  unfolding seedCrystal_def Let_def
  by (rule seed_loop_len) (use assms in \<open>simp add: unit_draws_stl\<close>)

text \<open>
  C7. With a mounted canvas, an empty collection and every random draw in [0, 1), planting
  one seed and running frames empties the collection after at most 18 frames: every
  branch of a frame's result is at least \<open>GROW_SPEED\<close> shorter than the longest branch
  before the frame (a child is shorter than its parent), and no seed arm is longer than
  125.
\<close>

theorem frames_terminate:
  assumes "canvasRef st \<noteq> None" and "branches st = []" and "unit_draws (random st)"
  shows "\<exists>n \<le> 18. branches ((tick ^^ n) (plant px py st)) = []"
proof -
  let ?st = "plant px py st"
  have "canvasRef ?st \<noteq> None" "unit_draws (random ?st)"
    "\<forall>b \<in> set (branches ?st). remaining b \<le> 125"
    using assms seedCrystal_len [OF assms(3), of px py] by (simp_all add: plant_fields)
  then have "branches ((tick ^^ Suc 17) ?st) = []"
    by (rule frames_empty) (simp add: GROW_SPEED_def)
  then show ?thesis by (intro exI [of _ "Suc 17"]) simp
qed

theorem frames_terminate_witness:
  "canvasRef ex_idle \<noteq> None \<and> branches ex_idle = [] \<and> unit_draws (random ex_idle) \<and>
   (\<exists>n \<le> 18. branches ((tick ^^ n) (plant 100 100 ex_idle)) = [])"
proof -
  have h: "canvasRef ex_idle \<noteq> None" "branches ex_idle = []" "unit_draws (random ex_idle)"
    by (simp_all add: ex_idle_def unit_draws_halves)
  show ?thesis using h frames_terminate [OF h, of 100 100] by simp
qed

subsection \<open>Segments rendered over a run\<close>

lemma segments_left_step:
  assumes "0 < rem"
  shows "nat \<lceil>(rem - min GROW_SPEED rem) / GROW_SPEED\<rceil> + 1 = nat \<lceil>rem / GROW_SPEED\<rceil>"
proof (cases "rem \<le> 7")
  case True
  then have "\<lceil>rem / 7\<rceil> = 1" using assms by (simp add: ceiling_eq_iff)
  with True show ?thesis by (simp add: GROW_SPEED_def min_def)
next
  case False
  have e: "(rem - 7) / 7 = rem / 7 - 1" by (simp add: field_simps)
  have c: "\<lceil>(rem - 7) / 7\<rceil> = \<lceil>rem / 7\<rceil> - 1" unfolding e by (rule ceiling_diff_one)
  have "1 \<le> \<lceil>rem / 7\<rceil>" using False by (simp add: le_ceiling_iff)
  then have "nat (\<lceil>rem / 7\<rceil> - 1) + 1 = nat \<lceil>rem / 7\<rceil>" by linarith
  then show ?thesis using False by (simp add: GROW_SPEED_def min_def c)
qed

lemma segments_left_done: "remaining b \<le> 0 \<Longrightarrow> segments_left b = 0"
  by (simp add: segments_left_def GROW_SPEED_def ceiling_le_iff)

lemma advance_strokes:
  "length (filter is_stroke (painted (fst (snd (snd (advance b GROW_SPEED ctx r)))))) =
     length (filter is_stroke (painted ctx)) + (if 0 < min GROW_SPEED (remaining b) then 1 else 0)"
proof (cases "0 < min GROW_SPEED (remaining b)")
  case True
  then show ?thesis
    by (simp add: advance_ctx [OF True] drawn_def Let_def del: min_less_iff_conj)
next
  case False
  then have s: "min GROW_SPEED (remaining b) \<le> 0" by (simp only: not_less)
  from False show ?thesis by (simp add: advance_noop [OF s] del: min_less_iff_conj)
qed

lemma advance_segments:
  "length (filter is_stroke (painted (fst (snd (snd (advance b GROW_SPEED ctx r)))))) +
     segments_left (fst (advance b GROW_SPEED ctx r)) =
   length (filter is_stroke (painted ctx)) + segments_left b"
proof (cases "0 < min GROW_SPEED (remaining b)")
  case True
  then have pos: "0 < remaining b" by simp
  have "remaining (fst (advance b GROW_SPEED ctx r)) = remaining b - min GROW_SPEED (remaining b)"
    using advance_branch [OF True, of ctx r] by (simp add: grown_def)
  then have "segments_left (fst (advance b GROW_SPEED ctx r)) + 1 = segments_left b"
    using segments_left_step [OF pos] by (simp add: segments_left_def)
  then show ?thesis using True by (simp add: advance_strokes del: min_less_iff_conj)
next
  case False
  then have s: "min GROW_SPEED (remaining b) \<le> 0" by (simp only: not_less)
  show ?thesis by (simp add: advance_noop [OF s])
qed

lemma tick_loop_segments:
  "length (filter is_stroke (painted (fst (snd (snd (tick_loop bs keep spawned ctx r)))))) +
     sum_list (map segments_left (fst (tick_loop bs keep spawned ctx r))) =
   length (filter is_stroke (painted ctx)) + sum_list (map segments_left keep) +
     sum_list (map segments_left bs)"
proof (induction bs arbitrary: keep spawned ctx r)
  case Nil
  show ?case by simp
next
  case (Cons b bs)
  obtain b' cs ctx' r' where a: "advance b GROW_SPEED ctx r = (b', cs, ctx', r')"
    by (cases "advance b GROW_SPEED ctx r") auto
  have seg: "length (filter is_stroke (painted ctx')) + segments_left b' =
      length (filter is_stroke (painted ctx)) + segments_left b"
    using advance_segments [of b ctx r] by (simp add: a)
  have keep: "sum_list (map segments_left (if 0 < remaining b' then keep @ [b'] else keep)) =
      sum_list (map segments_left keep) + segments_left b'"
    by (simp add: segments_left_done)
  show ?case
    using Cons.IH [of "if 0 < remaining b' then keep @ [b'] else keep" "spawned @ cs" ctx' r']
      seg keep
    by (simp add: a)
qed

lemma tick_segments:
  "rendered (tick st) + sum_list (map segments_left (branches (tick st))) =
   rendered st + sum_list (map segments_left (branches st)) +
     sum_list (map segments_left (spawned_in st))"
proof (cases "canvasRef st")
  case None
  then show ?thesis by (simp add: tick_unmounted spawned_in_def)
next
  case (Some ctx)
  show ?thesis
  proof (cases "branches st = []")
    case True
    then show ?thesis by (simp add: tick_idle spawned_in_def Some)
  next
    case False
    have "painted (frost_style ctx) = painted ctx" by (simp add: frost_style_def)
    then show ?thesis
      using tick_loop_segments [of "branches st" "[]" "[]" "frost_style ctx" "random st"]
      by (simp add: tick_running [OF Some False] rendered_def spawned_in_def Some)
  qed
qed

lemma frames_segments:
  "rendered ((tick ^^ n) st) + sum_list (map segments_left (branches ((tick ^^ n) st))) =
   rendered st + sum_list (map segments_left (branches st)) +
     sum_list (map segments_left (created n st))"
proof (induction n arbitrary: st)
  case 0
  show ?case by simp
next
  case (Suc n)
  show ?case using Suc.IH [of "tick st"] tick_segments [of st]
    by (simp add: funpow_swap1)
qed


lemma spawned_in_each:
  "canvasRef st = Some ctx \<Longrightarrow>
   spawned_in st = concat (map snd (advance_each (branches st) (frost_style ctx) (random st)))"
  using tick_loop_each [of "branches st" "[]" "[]" "frost_style ctx" "random st"]
  by (simp add: spawned_in_def)

lemma created_positive:
  assumes "canvasRef st \<noteq> None" and "unit_draws (random st)"
    and "\<forall>b \<in> set (branches st). remaining b \<le> M"
  shows "\<forall>c \<in> set (created n st). 0 < remaining c"
  using assms
proof (induction n arbitrary: st M)
  case 0
  show ?case by simp
next
  case (Suc n)
  obtain ctx where c: "canvasRef st = Some ctx" using Suc.prems(1) by blast
  have "\<forall>c \<in> set (spawned_in st). 0 < remaining c"
    unfolding spawned_in_each [OF c]
    using advance_each_bound [OF Suc.prems(2,3), of "frost_style ctx"] by fastforce
  moreover have "\<forall>c \<in> set (created n (tick st)). 0 < remaining c"
    using tick_bound [OF Suc.prems] by (intro Suc.IH [of "tick st" "M - GROW_SPEED"]) simp_all
  ultimately show ?case by auto
qed

lemma sum_list_at_least:
  "\<forall>x \<in> set xs. k \<le> f x \<Longrightarrow> k * length xs \<le> sum_list (map f xs)"
  by (induction xs) (simp_all add: algebra_simps)

lemma segments_left_positive: "0 < remaining b \<Longrightarrow> 1 \<le> segments_left b"
proof -
  assume "0 < remaining b"
  then have "1 \<le> \<lceil>remaining b / 7\<rceil>" by (simp add: le_ceiling_iff)
  then have "1 \<le> nat \<lceil>remaining b / 7\<rceil>" by linarith
  then show ?thesis by (simp only: segments_left_def GROW_SPEED_def)
qed

lemma segments_left_seed: "55 \<le> remaining b \<Longrightarrow> 8 \<le> segments_left b"
proof -
  assume "55 \<le> remaining b"
  then have "8 \<le> \<lceil>remaining b / 7\<rceil>" by (simp add: le_ceiling_iff)
  then have "8 \<le> nat \<lceil>remaining b / 7\<rceil>" by linarith
  then show ?thesis by (simp only: segments_left_def GROW_SPEED_def)
qed

text \<open>
  C8 (as amended). A call of \<open>advance\<close> by \<open>GROW_SPEED\<close> paints exactly one segment when
  its effective step is positive and none otherwise, and it lowers the branch's
  \<open>ceil (remaining / GROW_SPEED)\<close> by as much, so that a branch paints
  \<open>ceil (initialLength / GROW_SPEED)\<close> segments in all; and over a run from one seed-plant
  event on an empty collection until the collection is empty, the number of segments
  rendered is the sum of \<open>ceil (initialLength / GROW_SPEED)\<close> over every branch ever
  created (the seed arms and all children).
\<close>

theorem run_segments:
  assumes "branches st = []" and "branches ((tick ^^ n) (plant px py st)) = []"
  shows "length (filter is_stroke (painted (fst (snd (snd (advance b GROW_SPEED ctx r)))))) =
       length (filter is_stroke (painted ctx)) + (if 0 < min GROW_SPEED (remaining b) then 1 else 0) \<and>
     segments_left (fst (advance b GROW_SPEED ctx r)) +
         (if 0 < min GROW_SPEED (remaining b) then 1 else 0) = segments_left b \<and>
     rendered ((tick ^^ n) (plant px py st)) =
       rendered st +
       sum_list (map segments_left (fst (seedCrystal px py (random st)) @ created n (plant px py st)))"
proof -
  have "rendered (plant px py st) = rendered st" by (simp add: rendered_def plant_fields)
  then have run: "rendered ((tick ^^ n) (plant px py st)) =
       rendered st +
       sum_list (map segments_left (fst (seedCrystal px py (random st)) @ created n (plant px py st)))"
    using frames_segments [of n "plant px py st"] assms by (simp add: plant_fields)
  have left: "segments_left (fst (advance b GROW_SPEED ctx r)) +
         (if 0 < min GROW_SPEED (remaining b) then 1 else 0) = segments_left b"
    using advance_segments [of b ctx r] advance_strokes [of b ctx r] by linarith
  show ?thesis using run left advance_strokes [of b ctx r] by blast
qed

text \<open>The run that plants one seed at (100, 100) with every draw one half is over after 18 frames.\<close>

lemma ex_run_empty: "branches ((tick ^^ 18) (plant 100 100 ex_idle)) = []"
proof -
  let ?st = "plant 100 100 ex_idle"
  have "canvasRef ?st \<noteq> None" "unit_draws (random ?st)"
    "\<forall>b \<in> set (branches ?st). remaining b \<le> 125"
    using seedCrystal_len [OF unit_draws_halves, of 100 100]
    by (simp_all add: plant_fields ex_idle_def)
  then have "branches ((tick ^^ Suc 17) ?st) = []"
    by (rule frames_empty) (simp add: GROW_SPEED_def)
  then show ?thesis by simp
qed

theorem run_segments_witness:
  "branches ex_idle = [] \<and> branches ((tick ^^ 18) (plant 100 100 ex_idle)) = [] \<and>
   rendered ((tick ^^ 18) (plant 100 100 ex_idle)) =
     sum_list (map segments_left
       (branches (plant 100 100 ex_idle) @ created 18 (plant 100 100 ex_idle)))"
proof -
  have h: "branches ex_idle = []" by (simp add: ex_idle_def)
  have "rendered ex_idle = 0" "random ex_idle = halves"
    by (simp_all add: rendered_def ex_idle_def ex_ctx_def)
  then show ?thesis
    using h ex_run_empty run_segments [OF h ex_run_empty]
    by (simp add: plant_fields)
qed

text \<open>
  As first written the claim also has the number of segments equal to the number of
  branches ever created. In the run above there are 5 seed arms, each at least 55 long and
  so painted in at least 8 segments, and every child paints at least one: the segments
  outnumber the branches.
\<close>

theorem run_segments_counterexample:
  "branches ((tick ^^ 18) (plant 100 100 ex_idle)) = [] \<and>
   length (branches (plant 100 100 ex_idle)) = 5 \<and>
   5 * 8 + length (created 18 (plant 100 100 ex_idle))
     \<le> rendered ((tick ^^ 18) (plant 100 100 ex_idle)) \<and>
   rendered ((tick ^^ 18) (plant 100 100 ex_idle)) \<noteq>
     length (branches (plant 100 100 ex_idle) @ created 18 (plant 100 100 ex_idle))"
proof -
  let ?st = "plant 100 100 ex_idle"
  have st: "canvasRef ?st \<noteq> None" "unit_draws (random ?st)"
    "\<forall>b \<in> set (branches ?st). remaining b \<le> 125"
    "\<forall>b \<in> set (branches ?st). 55 \<le> remaining b"
    using seedCrystal_len [OF unit_draws_halves, of 100 100]
    by (simp_all add: plant_fields ex_idle_def)
  have len: "length (branches ?st) = 5"
    by (simp add: plant_fields ex_idle_def seedCrystal_def seed_loop_length halves_simps)
  have "8 * length (branches ?st) \<le> sum_list (map segments_left (branches ?st))"
    using st(4) by (intro sum_list_at_least) (auto simp: segments_left_seed)
  moreover have "\<forall>c \<in> set (created 18 ?st). 1 \<le> segments_left c"
    using created_positive [OF st(1-3), of 18] segments_left_positive by blast
  then have "1 * length (created 18 ?st) \<le> sum_list (map segments_left (created 18 ?st))"
    by (rule sum_list_at_least)
  moreover have "rendered ((tick ^^ 18) ?st) =
      sum_list (map segments_left (branches ?st)) + sum_list (map segments_left (created 18 ?st))"
    using frames_segments [of 18 ?st] ex_run_empty
    by (simp add: rendered_def plant_fields ex_idle_def ex_ctx_def)
  ultimately show ?thesis using len ex_run_empty by simp
qed

end
